theory Spec2Isabelle
  imports Main
begin

section \<open>The substitution cipher of question-one/chipher.py\<close>

subsection \<open>Characters and texts\<close>

text \<open>
  A Python \<open>str\<close> is a sequence of Unicode code points and \<open>len\<close> counts code points.
  A character (a \<open>str\<close> of length one, as produced by iterating over a text) is modelled
  by its code point \<open>ord c\<close>, a natural number, so that the comparison \<open>'a' <= c <= 'z'\<close>
  is the comparison of code points that Python performs. A text is a list of characters.
\<close>

type_synonym pychar = nat
type_synonym pystr = "pychar list"

text \<open>\<open>ord\<close> of an ASCII literal of the source, and the text of an ASCII string literal.\<close>

definition ord :: "char \<Rightarrow> pychar" where
  "ord ch = of_char ch"

definition py :: "string \<Rightarrow> pystr" where
  "py s = map ord s"

text \<open>
  \<open>chr n\<close>: the character with code point \<open>n\<close>. Python raises for \<open>n\<close> outside
  \<open>range(0x110000)\<close>; \<open>shift_char\<close> only calls it on \<open>base + r\<close> with \<open>0 \<le> r < 26\<close>
  (lemmas \<open>shift_char_lower\<close> and \<open>shift_char_upper\<close>), where it never does.
\<close>

definition chr :: "int \<Rightarrow> pychar" where
  "chr n = nat n"

subsection \<open>Helper functions\<close>

definition is_lower :: "pychar \<Rightarrow> bool" where
  "is_lower c \<longleftrightarrow> ord CHR ''a'' \<le> c \<and> c \<le> ord CHR ''z''"

definition is_upper :: "pychar \<Rightarrow> bool" where
  "is_upper c \<longleftrightarrow> ord CHR ''A'' \<le> c \<and> c \<le> ord CHR ''Z''"

text \<open>Python's \<open>%\<close> on integers with the positive divisor 26 is \<open>mod\<close> on \<open>int\<close>: both floor.\<close>

definition shift_char :: "pychar \<Rightarrow> int \<Rightarrow> pychar" where
  "shift_char c shift =
     (if is_lower c then
        (let base = int (ord CHR ''a'') in chr ((int c - base + shift) mod 26 + base))
      else if is_upper c then
        (let base = int (ord CHR ''A'') in chr ((int c - base + shift) mod 26 + base))
      else c)"

text \<open>The metadata codes are the Python strings \<open>"L1"\<close>, \<open>"L2"\<close>, \<open>"U1"\<close>, \<open>"U2"\<close>, \<open>"O"\<close>.\<close>

definition classify_plain :: "pychar \<Rightarrow> string" where
  "classify_plain c =
     (if is_lower c then
        (if ord CHR ''a'' \<le> c \<and> c \<le> ord CHR ''m'' then ''L1'' else ''L2'')
      else if is_upper c then
        (if ord CHR ''A'' \<le> c \<and> c \<le> ord CHR ''M'' then ''U1'' else ''U2'')
      else ''O'')"

text \<open>
  Lines 52 and 53 of \<open>encrypt_char_and_meta\<close>, \<open>s1 = shift1 % 26\<close> and \<open>s2 = shift2 % 26\<close>:
  the values of its local variables \<open>s1\<close> and \<open>s2\<close>, which its four rules read.
\<close>

definition encrypt_shifts :: "int \<Rightarrow> int \<Rightarrow> int \<times> int" where
  "encrypt_shifts shift1 shift2 =
     (let s1 = shift1 mod 26;
          s2 = shift2 mod 26
      in (s1, s2))"

definition encrypt_char_and_meta :: "pychar \<Rightarrow> int \<Rightarrow> int \<Rightarrow> pychar \<times> string" where
  "encrypt_char_and_meta c shift1 shift2 =
     (let code = classify_plain c;
          (s1, s2) = encrypt_shifts shift1 shift2
      in if code = ''L1'' then (shift_char c ((s1 * s2) mod 26), code)
         else if code = ''L2'' then (shift_char c (- ((s1 + s2) mod 26)), code)
         else if code = ''U1'' then (shift_char c (- s1), code)
         else if code = ''U2'' then (shift_char c ((s2 * s2) mod 26), code)
         else (c, code))"

text \<open>Lines 70 and 71 of \<open>inverse_by_meta\<close>: the values of its local variables \<open>s1\<close> and \<open>s2\<close>.\<close>

definition inverse_shifts :: "int \<Rightarrow> int \<Rightarrow> int \<times> int" where
  "inverse_shifts shift1 shift2 =
     (let s1 = shift1 mod 26;
          s2 = shift2 mod 26
      in (s1, s2))"

definition inverse_by_meta :: "pychar \<Rightarrow> string \<Rightarrow> int \<Rightarrow> int \<Rightarrow> pychar" where
  "inverse_by_meta cipher_c meta_code shift1 shift2 =
     (let (s1, s2) = inverse_shifts shift1 shift2
      in if meta_code = ''L1'' then shift_char cipher_c (- ((s1 * s2) mod 26))
         else if meta_code = ''L2'' then shift_char cipher_c ((s1 + s2) mod 26)
         else if meta_code = ''U1'' then shift_char cipher_c s1
         else if meta_code = ''U2'' then shift_char cipher_c (- ((s2 * s2) mod 26))
         else cipher_c)"

text \<open>
  The forward rule of a class, as a function of the code: the branch that
  \<open>encrypt_char_and_meta\<close> selects for \<open>code\<close> (lines 54 to 65 of the source), which the
  candidate loops of \<open>brute_force_decrypt\<close> apply in the same way to a letter of a known
  class. Lemma \<open>encrypt_char_and_meta_forward_rule\<close> relates the two.
\<close>

definition forward_rule :: "pychar \<Rightarrow> string \<Rightarrow> int \<Rightarrow> int \<Rightarrow> pychar" where
  "forward_rule c code shift1 shift2 =
     (let s1 = shift1 mod 26;
          s2 = shift2 mod 26
      in if code = ''L1'' then shift_char c ((s1 * s2) mod 26)
         else if code = ''L2'' then shift_char c (- ((s1 + s2) mod 26))
         else if code = ''U1'' then shift_char c (- s1)
         else if code = ''U2'' then shift_char c ((s2 * s2) mod 26)
         else c)"

subsection \<open>File operations\<close>

text \<open>
  The files are modelled by their contents: \<open>None\<close> is a path that does not exist, where
  the source raises \<open>FileNotFoundError\<close>. A function that writes files returns what it writes.
\<close>

datatype error = FileNotFoundError

text \<open>
  \<open>encrypt_file\<close> returns the text written to \<open>enc_path\<close> (the characters of
  \<open>enc_chars\<close> joined) and the list written to \<open>meta_path\<close>.
\<close>

definition encrypt_file :: "pystr option \<Rightarrow> int \<Rightarrow> int \<Rightarrow> error + (pystr \<times> string list)" where
  "encrypt_file raw_file shift1 shift2 =
     (case raw_file of
        None \<Rightarrow> Inl FileNotFoundError
      | Some raw \<Rightarrow>
          Inr (foldl (\<lambda>(enc_chars, meta) ch.
                        (case encrypt_char_and_meta ch shift1 shift2 of
                           (e, code) \<Rightarrow> (enc_chars @ [e], meta @ [code])))
                     ([], []) raw))"

subsection \<open>Brute-force fallback\<close>

text \<open>An ambiguity record: position, cipher character, candidates.\<close>

type_synonym ambiguity = "nat \<times> pychar \<times> pystr"

definition lower_alphabet :: pystr where
  "lower_alphabet = map (\<lambda>i. chr (int i)) [ord CHR ''a'' ..< ord CHR ''z'' + 1]"

definition upper_alphabet :: pystr where
  "upper_alphabet = map (\<lambda>i. chr (int i)) [ord CHR ''A'' ..< ord CHR ''Z'' + 1]"

text \<open>The inner loops of \<open>brute_force_decrypt\<close>, which collect \<open>candidates\<close>.\<close>

definition lower_candidates :: "pychar \<Rightarrow> int \<Rightarrow> int \<Rightarrow> pystr" where
  "lower_candidates c s1 s2 =
     foldl (\<lambda>candidates p.
              (let code = classify_plain p;
                   e = (if code = ''L1'' then shift_char p ((s1 * s2) mod 26)
                        else shift_char p (- ((s1 + s2) mod 26)))
               in if e = c then candidates @ [p] else candidates))
           [] lower_alphabet"

definition upper_candidates :: "pychar \<Rightarrow> int \<Rightarrow> int \<Rightarrow> pystr" where
  "upper_candidates c s1 s2 =
     foldl (\<lambda>candidates p.
              (let code = classify_plain p;
                   e = (if code = ''U1'' then shift_char p (- s1)
                        else shift_char p ((s2 * s2) mod 26))
               in if e = c then candidates @ [p] else candidates))
           [] upper_alphabet"

text \<open>One iteration of the outer loop, on the pair \<open>(i, c)\<close> of \<open>enumerate(enc_text)\<close>.\<close>

definition brute_force_step ::
  "int \<Rightarrow> int \<Rightarrow> pystr \<times> ambiguity list \<Rightarrow> nat \<times> pychar \<Rightarrow> pystr \<times> ambiguity list" where
  "brute_force_step s1 s2 st ic =
     (case st of (decrypted, ambiguities) \<Rightarrow>
      case ic of (i, c) \<Rightarrow>
        if is_lower c then
          (let candidates = lower_candidates c s1 s2
           in if length candidates = 1 then (decrypted @ [candidates ! 0], ambiguities)
              else (decrypted @ [if candidates \<noteq> [] then candidates ! 0 else c],
                    ambiguities @ [(i, c, candidates)]))
        else if is_upper c then
          (let candidates = upper_candidates c s1 s2
           in if length candidates = 1 then (decrypted @ [candidates ! 0], ambiguities)
              else (decrypted @ [if candidates \<noteq> [] then candidates ! 0 else c],
                    ambiguities @ [(i, c, candidates)]))
        else (decrypted @ [c], ambiguities))"

text \<open>
  Lines 158 and 159 of \<open>brute_force_decrypt\<close>: the values of its local variables \<open>s1\<close>
  and \<open>s2\<close>, which every iteration reads.
\<close>

definition brute_force_shifts :: "int \<Rightarrow> int \<Rightarrow> int \<times> int" where
  "brute_force_shifts shift1 shift2 =
     (let s1 = shift1 mod 26;
          s2 = shift2 mod 26
      in (s1, s2))"

definition brute_force_decrypt :: "pystr \<Rightarrow> int \<Rightarrow> int \<Rightarrow> pystr \<times> ambiguity list" where
  "brute_force_decrypt enc_text shift1 shift2 =
     (let (s1, s2) = brute_force_shifts shift1 shift2
      in foldl (brute_force_step s1 s2) ([], []) (enumerate 0 enc_text))"

text \<open>
  The list \<open>candidates\<close> that one iteration of the outer loop computes for the cipher
  character \<open>c\<close>, with the reduced shifts that \<open>brute_force_decrypt\<close> passes: the lowercase
  loop for a lowercase \<open>c\<close>, the uppercase loop for an uppercase \<open>c\<close>, and no list (here
  the empty one) for any other character, which the loop copies without a search.
\<close>

definition candidates :: "pychar \<Rightarrow> int \<Rightarrow> int \<Rightarrow> pystr" where
  "candidates c shift1 shift2 =
     (if is_lower c then lower_candidates c (shift1 mod 26) (shift2 mod 26)
      else if is_upper c then upper_candidates c (shift1 mod 26) (shift2 mod 26)
      else [])"

text \<open>
  \<open>decrypt_file\<close> returns the text written to \<open>dec_path\<close> and the ambiguities it reports.
  The metadata file is \<open>None\<close> when it does not exist, cannot be read or parsed, or does not
  hold a list; a list of the wrong length is discarded in the same way. The elements of
  the list are taken to be strings: \<open>inverse_by_meta\<close> only compares them with the four
  codes, and any other value leaves the character unchanged.
\<close>

definition decrypt_file ::
  "pystr option \<Rightarrow> string list option \<Rightarrow> int \<Rightarrow> int \<Rightarrow> error + (pystr \<times> ambiguity list)" where
  "decrypt_file enc_file meta_file shift1 shift2 =
     (case enc_file of
        None \<Rightarrow> Inl FileNotFoundError
      | Some enc_text \<Rightarrow>
          (let meta = (case meta_file of
                         None \<Rightarrow> None
                       | Some m \<Rightarrow> if length m \<noteq> length enc_text then None else Some m)
           in case meta of
                Some m \<Rightarrow>
                  Inr (map (\<lambda>(c, m). inverse_by_meta c m shift1 shift2) (zip enc_text m), [])
              | None \<Rightarrow> Inr (brute_force_decrypt enc_text shift1 shift2)))"

subsection \<open>Verification\<close>

text \<open>
  \<open>str.splitlines(keepends=True)\<close>: the text is cut after each line boundary, which stays
  with its line; \<open>"\r\n"\<close> is one boundary. The boundaries are the ones of Python's
  documentation of \<open>str.splitlines\<close>.
\<close>

definition is_line_boundary :: "pychar \<Rightarrow> bool" where
  "is_line_boundary c \<longleftrightarrow>
     c \<in> {0x0A, 0x0D, 0x0B, 0x0C, 0x1C, 0x1D, 0x1E, 0x85, 0x2028, 0x2029}"

fun splitlines_from :: "pystr \<Rightarrow> pystr \<Rightarrow> pystr list" where
  "splitlines_from cur [] = (if cur = [] then [] else [cur])"
| "splitlines_from cur [c] =
     (if is_line_boundary c then [cur @ [c]] else [cur @ [c]])"
| "splitlines_from cur (c # d # cs) =
     (if c = 0x0D \<and> d = 0x0A then (cur @ [c, d]) # splitlines_from [] cs
      else if is_line_boundary c then (cur @ [c]) # splitlines_from [] (d # cs)
      else splitlines_from (cur @ [c]) (d # cs))"

definition splitlines :: "pystr \<Rightarrow> pystr list" where
  "splitlines s = splitlines_from [] s"

text \<open>\<open>line.rstrip("\n")\<close>.\<close>

definition rstrip_newline :: "pystr \<Rightarrow> pystr" where
  "rstrip_newline line = rev (dropWhile (\<lambda>c. c = 0x0A) (rev line))"

text \<open>
  The loop that prints the diff: each line is printed, and after the 200th the truncation
  notice is printed and the loop is left.
\<close>

fun print_diff :: "nat \<Rightarrow> pystr list \<Rightarrow> pystr list" where
  "print_diff shown [] = []"
| "print_diff shown (line # rest) =
     rstrip_newline line #
       (if shown + 1 \<ge> 200 then [py ''... (diff truncated) ...'']
        else print_diff (shown + 1) rest)"

text \<open>
  \<open>verify_files\<close> returns its result together with what it prints, one element for each
  call of \<open>print\<close>. \<open>difflib.unified_diff\<close> belongs to Python's standard library, not to
  this program: the parameter \<open>unified_diff\<close> stands for it, applied to the two lists of
  lines (with the file names and \<open>n=3\<close> that \<open>verify_files\<close> passes).
\<close>

definition verify_files ::
  "(pystr list \<Rightarrow> pystr list \<Rightarrow> pystr list) \<Rightarrow> pystr option \<Rightarrow> pystr option
     \<Rightarrow> error + (bool \<times> pystr list)" where
  "verify_files unified_diff raw_file dec_file =
     (case raw_file of
        None \<Rightarrow> Inl FileNotFoundError
      | Some raw \<Rightarrow>
          (case dec_file of
             None \<Rightarrow> Inl FileNotFoundError
           | Some dec \<Rightarrow>
               if raw = dec then
                 Inr (True, [py ''Decryption successful! Decrypted text matches the original.''])
               else
                 (let raw_lines = splitlines raw;
                      dec_lines = splitlines dec;
                      diff_iter = unified_diff raw_lines dec_lines
                  in Inr (False,
                          [py ''Decryption failed: decrypted text does not match original.'',
                           [0x0A] @ py ''Showing a short unified diff (original -> decrypted):''
                             @ [0x0A]]
                          @ print_diff 0 diff_iter))))"

section \<open>Properties\<close>

subsection \<open>Letters and shifts\<close>

lemma ord_simps: "ord CHR ''a'' = 97" "ord CHR ''z'' = 122" "ord CHR ''A'' = 65" "ord CHR ''Z'' = 90"
  "ord CHR ''m'' = 109" "ord CHR ''M'' = 77"
  by (simp_all add: ord_def)

lemma is_lower_iff: "is_lower c \<longleftrightarrow> 97 \<le> c \<and> c \<le> 122"
  by (simp add: is_lower_def ord_simps)

lemma is_upper_iff: "is_upper c \<longleftrightarrow> 65 \<le> c \<and> c \<le> 90"
  by (simp add: is_upper_def ord_simps)

lemma not_lower_and_upper: "is_lower c \<Longrightarrow> \<not> is_upper c"
  by (simp add: is_lower_iff is_upper_iff)

lemma shift_char_lower: "is_lower c \<Longrightarrow> shift_char c k = nat ((int c - 97 + k) mod 26 + 97)"
  by (simp add: shift_char_def ord_simps chr_def)

lemma shift_char_upper: "is_upper c \<Longrightarrow> shift_char c k = nat ((int c - 65 + k) mod 26 + 65)"
  by (auto simp add: shift_char_def ord_simps chr_def is_lower_iff is_upper_iff)

lemma shift_char_other: "\<not> is_lower c \<Longrightarrow> \<not> is_upper c \<Longrightarrow> shift_char c k = c"
  by (simp add: shift_char_def)

lemma mod26_bounds: "0 \<le> (x::int) mod 26 \<and> x mod 26 < 26"
  by simp

lemma shift_char_is_lower: "is_lower c \<Longrightarrow> is_lower (shift_char c k)"
proof -
  assume l: "is_lower c"
  have "0 \<le> (int c - 97 + k) mod 26" "(int c - 97 + k) mod 26 < 26" by simp_all
  then show ?thesis unfolding shift_char_lower [OF l] is_lower_iff by linarith
qed

lemma shift_char_is_upper: "is_upper c \<Longrightarrow> is_upper (shift_char c k)"
proof -
  assume u: "is_upper c"
  have "0 \<le> (int c - 65 + k) mod 26" "(int c - 65 + k) mod 26 < 26" by simp_all
  then show ?thesis unfolding shift_char_upper [OF u] is_upper_iff by linarith
qed

lemma shift_char_add: "shift_char (shift_char c k) j = shift_char c (k + j)"
proof (cases "is_lower c")
  case True
  let ?d = "shift_char c k"
  have d: "int ?d = (int c - 97 + k) mod 26 + 97"
    by (simp add: shift_char_lower [OF True])
  have "shift_char ?d j = nat ((int ?d - 97 + j) mod 26 + 97)"
    by (rule shift_char_lower [OF shift_char_is_lower [OF True]])
  also have "(int ?d - 97 + j) mod 26 = (int c - 97 + (k + j)) mod 26"
    unfolding d by (simp add: mod_add_left_eq add.assoc)
  finally show ?thesis by (simp add: shift_char_lower [OF True])
next
  case False
  show ?thesis
  proof (cases "is_upper c")
    case True
    let ?d = "shift_char c k"
    have d: "int ?d = (int c - 65 + k) mod 26 + 65"
      by (simp add: shift_char_upper [OF True])
    have "shift_char ?d j = nat ((int ?d - 65 + j) mod 26 + 65)"
      by (rule shift_char_upper [OF shift_char_is_upper [OF True]])
    also have "(int ?d - 65 + j) mod 26 = (int c - 65 + (k + j)) mod 26"
      unfolding d by (simp add: mod_add_left_eq add.assoc)
    finally show ?thesis by (simp add: shift_char_upper [OF True])
  next
    case False
    with \<open>\<not> is_lower c\<close> show ?thesis by (simp add: shift_char_other)
  qed
qed

lemma shift_char_dvd: "26 dvd k \<Longrightarrow> shift_char c k = c"
proof (cases "is_lower c")
  case True
  assume "26 dvd k"
  then have "(int c - 97 + k) mod 26 = (int c - 97) mod 26"
    by (metis mod_add_right_eq dvd_eq_mod_eq_0 add.right_neutral)
  moreover have "(int c - 97) mod 26 = int c - 97" using True by (simp add: is_lower_iff)
  ultimately show ?thesis using True by (simp add: shift_char_lower is_lower_iff)
next
  case False
  assume d: "26 dvd k"
  show ?thesis
  proof (cases "is_upper c")
    case True
    from d have "(int c - 65 + k) mod 26 = (int c - 65) mod 26"
      by (metis mod_add_right_eq dvd_eq_mod_eq_0 add.right_neutral)
    moreover have "(int c - 65) mod 26 = int c - 65" using True by (simp add: is_upper_iff)
    ultimately show ?thesis using True by (simp add: shift_char_upper is_upper_iff)
  next
    case False
    with \<open>\<not> is_lower c\<close> show ?thesis by (simp add: shift_char_other)
  qed
qed

lemma shift_char_undo: "shift_char (shift_char c k) (- k) = c"
  by (simp add: shift_char_add shift_char_dvd)

lemma shift_char_undo': "shift_char (shift_char c (- k)) k = c"
  by (simp add: shift_char_add shift_char_dvd)

lemma shift_char_inj: "shift_char p k = shift_char q k \<Longrightarrow> p = q"
  by (metis shift_char_undo)

lemma classify_plain_cases:
  "classify_plain c = ''L1'' \<longleftrightarrow> 97 \<le> c \<and> c \<le> 109"
  "classify_plain c = ''L2'' \<longleftrightarrow> 110 \<le> c \<and> c \<le> 122"
  "classify_plain c = ''U1'' \<longleftrightarrow> 65 \<le> c \<and> c \<le> 77"
  "classify_plain c = ''U2'' \<longleftrightarrow> 78 \<le> c \<and> c \<le> 90"
  "classify_plain c = ''O'' \<longleftrightarrow> \<not> is_lower c \<and> \<not> is_upper c"
  by (auto simp add: classify_plain_def is_lower_iff is_upper_iff ord_simps)

lemma classify_plain_range:
  "classify_plain c \<in> {''L1'', ''L2'', ''U1'', ''U2'', ''O''}"
  by (simp add: classify_plain_def)

lemma inverse_encrypt:
  "inverse_by_meta (fst (encrypt_char_and_meta c shift1 shift2))
     (snd (encrypt_char_and_meta c shift1 shift2)) shift1 shift2 = c"
  by (simp add: encrypt_char_and_meta_def encrypt_shifts_def inverse_by_meta_def inverse_shifts_def Let_def shift_char_undo shift_char_undo')

subsection \<open>Forward and inverse rules\<close>

lemma encrypt_char_and_meta_forward_rule:
  "encrypt_char_and_meta c shift1 shift2 =
     (forward_rule c (classify_plain c) shift1 shift2, classify_plain c)"
  using classify_plain_range [of c]
  by (auto simp add: encrypt_char_and_meta_def encrypt_shifts_def forward_rule_def Let_def)

lemma snd_encrypt: "snd (encrypt_char_and_meta c shift1 shift2) = classify_plain c"
  by (simp add: encrypt_char_and_meta_forward_rule)

lemma inverse_forward_rule: "inverse_by_meta (forward_rule c K shift1 shift2) K shift1 shift2 = c"
  by (simp add: forward_rule_def inverse_by_meta_def inverse_shifts_def Let_def shift_char_undo shift_char_undo')

lemma forward_inverse_rule: "forward_rule (inverse_by_meta c K shift1 shift2) K shift1 shift2 = c"
  by (simp add: forward_rule_def inverse_by_meta_def inverse_shifts_def Let_def shift_char_undo shift_char_undo')

lemma encrypt_file_loop:
  "foldl (\<lambda>(enc_chars, meta) ch.
            (case encrypt_char_and_meta ch shift1 shift2 of
               (e, code) \<Rightarrow> (enc_chars @ [e], meta @ [code])))
         (es, ms) raw =
   (es @ map (\<lambda>ch. fst (encrypt_char_and_meta ch shift1 shift2)) raw,
    ms @ map (\<lambda>ch. snd (encrypt_char_and_meta ch shift1 shift2)) raw)"
  by (induction raw arbitrary: es ms) (simp_all add: split_beta)

lemma encrypt_file_Some:
  "encrypt_file (Some raw) shift1 shift2 =
     Inr (map (\<lambda>ch. fst (encrypt_char_and_meta ch shift1 shift2)) raw, map classify_plain raw)"
  by (simp add: encrypt_file_def encrypt_file_loop snd_encrypt)

lemma decrypt_encrypted:
  "map (\<lambda>(c, m). inverse_by_meta c m shift1 shift2)
     (zip (map (\<lambda>ch. fst (encrypt_char_and_meta ch shift1 shift2)) raw) (map classify_plain raw)) = raw"
proof -
  have "inverse_by_meta (fst (encrypt_char_and_meta ch shift1 shift2)) (classify_plain ch) shift1 shift2 = ch" for ch
    using inverse_encrypt [of ch shift1 shift2] by (simp add: snd_encrypt)
  then show ?thesis by (induction raw) simp_all
qed

text \<open>
  Claim C1. For every text \<open>T\<close> and every pair of integer shifts, encrypting each
  character with \<open>encrypt_char_and_meta\<close> and undoing each cipher character with
  \<open>inverse_by_meta\<close> under its recorded code gives \<open>T\<close> back, also for the shifts \<open>0, 0\<close>;
  and \<open>decrypt_file\<close> on the two outputs of \<open>encrypt_file\<close> writes \<open>T\<close> and reports no
  ambiguity.
\<close>

theorem metadata_round_trip:
  "map (\<lambda>ch. case encrypt_char_and_meta ch shift1 shift2 of
               (cipher_c, meta_code) \<Rightarrow> inverse_by_meta cipher_c meta_code shift1 shift2) T = T
   \<and> map (\<lambda>ch. case encrypt_char_and_meta ch 0 0 of
               (cipher_c, meta_code) \<Rightarrow> inverse_by_meta cipher_c meta_code 0 0) T = T
   \<and> (\<exists>cipher meta. encrypt_file (Some T) shift1 shift2 = Inr (cipher, meta)
         \<and> decrypt_file (Some cipher) (Some meta) shift1 shift2 = Inr (T, []))
   \<and> (\<exists>cipher meta. encrypt_file (Some T) 0 0 = Inr (cipher, meta)
         \<and> decrypt_file (Some cipher) (Some meta) 0 0 = Inr (T, []))"
proof -
  have a: "map (\<lambda>ch. case encrypt_char_and_meta ch s1 s2 of
               (cipher_c, meta_code) \<Rightarrow> inverse_by_meta cipher_c meta_code s1 s2) T = T" for s1 s2
    using inverse_encrypt by (simp add: split_beta map_idI)
  have b: "\<exists>cipher meta. encrypt_file (Some T) s1 s2 = Inr (cipher, meta)
         \<and> decrypt_file (Some cipher) (Some meta) s1 s2 = Inr (T, [])" for s1 s2
    by (simp add: encrypt_file_Some decrypt_file_def decrypt_encrypted)
  from a b show ?thesis by blast
qed

text \<open>
  Claim C2. For a class \<open>K\<close> among \<open>L1\<close>, \<open>L2\<close>, \<open>U1\<close>, \<open>U2\<close>, a letter \<open>c\<close> of that class and
  shifts in \<open>[0, 26)\<close>, the forward rule of \<open>K\<close> followed by the inverse rule of \<open>K\<close>
  returns \<open>c\<close>, and so does the inverse rule followed by the forward rule.
\<close>

theorem forward_inverse_identity:
  assumes "K \<in> {''L1'', ''L2'', ''U1'', ''U2''}" and "classify_plain c = K"
    and "0 \<le> s1" and "s1 < 26" and "0 \<le> s2" and "s2 < 26"
  shows "inverse_by_meta (fst (encrypt_char_and_meta c s1 s2)) K s1 s2 = c
       \<and> inverse_by_meta (forward_rule c K s1 s2) K s1 s2 = c
       \<and> forward_rule (inverse_by_meta c K s1 s2) K s1 s2 = c"
  using assms(2) by (simp add: encrypt_char_and_meta_forward_rule inverse_forward_rule forward_inverse_rule)

theorem forward_inverse_identity_witness:
  "inverse_by_meta (fst (encrypt_char_and_meta (ord CHR ''q'') 7 25)) ''L2'' 7 25 = ord CHR ''q''
   \<and> fst (encrypt_char_and_meta (ord CHR ''q'') 7 25) = ord CHR ''k''
   \<and> inverse_by_meta (forward_rule (ord CHR ''q'') ''L2'' 7 25) ''L2'' 7 25 = ord CHR ''q''
   \<and> forward_rule (inverse_by_meta (ord CHR ''q'') ''L2'' 7 25) ''L2'' 7 25 = ord CHR ''q''
   \<and> inverse_by_meta (ord CHR ''q'') ''L2'' 7 25 = ord CHR ''w''"
proof -
  have k: "''L2'' \<in> {''L1'', ''L2'', ''U1'', ''U2''}" by simp
  have c: "classify_plain (ord CHR ''q'') = ''L2''" by code_simp
  have e: "fst (encrypt_char_and_meta (ord CHR ''q'') 7 25) = ord CHR ''k''"
    by code_simp
  have i: "inverse_by_meta (ord CHR ''q'') ''L2'' 7 25 = ord CHR ''w''"
    by code_simp
  from forward_inverse_identity [OF k c, of 7 25] e i show ?thesis by simp
qed

subsection \<open>Reduced shifts and the case of a letter\<close>

lemma shift_char_is_lower_iff: "is_lower (shift_char c k) \<longleftrightarrow> is_lower c"
proof (cases "is_lower c")
  case True
  then show ?thesis by (simp add: shift_char_is_lower)
next
  case False
  show ?thesis
  proof (cases "is_upper c")
    case True
    from shift_char_is_upper [OF True, of k] not_lower_and_upper False show ?thesis by blast
  next
    case False
    with \<open>\<not> is_lower c\<close> show ?thesis by (simp add: shift_char_other)
  qed
qed

lemma shift_char_is_upper_iff: "is_upper (shift_char c k) \<longleftrightarrow> is_upper c"
proof (cases "is_upper c")
  case True
  then show ?thesis by (simp add: shift_char_is_upper)
next
  case False
  show ?thesis
  proof (cases "is_lower c")
    case True
    from shift_char_is_lower [OF True, of k] not_lower_and_upper False show ?thesis by blast
  next
    case False
    with \<open>\<not> is_upper c\<close> show ?thesis by (simp add: shift_char_other)
  qed
qed

lemma forward_rule_case:
  "is_lower (forward_rule c K shift1 shift2) = is_lower c"
  "is_upper (forward_rule c K shift1 shift2) = is_upper c"
  by (simp_all add: forward_rule_def Let_def shift_char_is_lower_iff shift_char_is_upper_iff)


lemma encrypt_case:
  "is_lower (fst (encrypt_char_and_meta c shift1 shift2)) = is_lower c"
  "is_upper (fst (encrypt_char_and_meta c shift1 shift2)) = is_upper c"
  by (simp_all add: encrypt_char_and_meta_forward_rule forward_rule_case)







lemma negative_shifts_reduced:
  "encrypt_shifts (- 1) (- 27) = (25, 25)"
  "inverse_shifts (- 1) (- 27) = (25, 25)"
  "brute_force_shifts (- 1) (- 27) = (25, 25)"
  by (simp_all add: encrypt_shifts_def inverse_shifts_def brute_force_shifts_def)


subsection \<open>The encoder\<close>

text \<open>
  Claim C7. For every text and all shifts, the encoder writes a cipher text and a
  metadata list that both have the length of the source text, and the code at each
  position is the class of the source character at that position.
\<close>

theorem encoder_lengths:
  "\<exists>cipher meta. encrypt_file (Some T) shift1 shift2 = Inr (cipher, meta)
     \<and> length cipher = length T \<and> length meta = length T \<and> meta = map classify_plain T
     \<and> cipher = map (\<lambda>ch. fst (encrypt_char_and_meta ch shift1 shift2)) T"
  by (simp add: encrypt_file_Some)

text \<open>
  Claim C8. A character classified \<open>O\<close> (one outside \<open>a-z\<close> and \<open>A-Z\<close>) is returned
  unchanged by the forward transform and by the inverse transform under every code and
  all shifts, and its metadata code is \<open>O\<close>.
\<close>

theorem other_unchanged:
  assumes "classify_plain c = ''O''"
  shows "\<not> is_lower c \<and> \<not> is_upper c
       \<and> encrypt_char_and_meta c shift1 shift2 = (c, ''O'')
       \<and> forward_rule c K shift1 shift2 = c
       \<and> inverse_by_meta c K shift1 shift2 = c
       \<and> shift_char c shift = c"
proof -
  from assms have n: "\<not> is_lower c" "\<not> is_upper c" by (simp_all add: classify_plain_cases)
  then have "shift_char c k = c" for k by (simp add: shift_char_other)
  with n assms show ?thesis
    by (simp add: encrypt_char_and_meta_def encrypt_shifts_def forward_rule_def inverse_by_meta_def inverse_shifts_def Let_def)
qed

theorem other_unchanged_witness:
  "classify_plain (ord CHR ''!'') = ''O''
   \<and> encrypt_char_and_meta (ord CHR ''!'') 3 (- 5) = (ord CHR ''!'', ''O'')
   \<and> inverse_by_meta (ord CHR ''!'') ''U2'' 3 (- 5) = ord CHR ''!''"
proof -
  have c: "classify_plain (ord CHR ''!'') = ''O''" by code_simp
  from other_unchanged [OF c, of 3 "- 5" "''U2''"] c show ?thesis by simp
qed

subsection \<open>The candidate lists\<close>

lemma lower_alphabet_eq: "lower_alphabet = [97..<123]"
  by (simp add: lower_alphabet_def ord_simps chr_def)

lemma upper_alphabet_eq: "upper_alphabet = [65..<91]"
  by (simp add: upper_alphabet_def ord_simps chr_def)

lemma set_lower_alphabet: "set lower_alphabet = {p. is_lower p}"
  unfolding lower_alphabet_eq set_upt is_lower_iff by auto

lemma set_upper_alphabet: "set upper_alphabet = {p. is_upper p}"
  unfolding upper_alphabet_eq set_upt is_upper_iff by auto

lemma foldl_collect:
  "foldl (\<lambda>acc p. if P p then acc @ [p] else acc) acc xs = acc @ filter P xs"
  by (induction xs arbitrary: acc) simp_all

lemma lower_candidates_filter:
  "lower_candidates c (shift1 mod 26) (shift2 mod 26) =
     filter (\<lambda>p. fst (encrypt_char_and_meta p shift1 shift2) = c) lower_alphabet"
proof -
  have "lower_candidates c (shift1 mod 26) (shift2 mod 26) =
      filter (\<lambda>p. (if classify_plain p = ''L1''
                    then shift_char p ((shift1 mod 26 * (shift2 mod 26)) mod 26)
                    else shift_char p (- ((shift1 mod 26 + shift2 mod 26) mod 26))) = c)
             lower_alphabet"
    unfolding lower_candidates_def Let_def by (simp add: foldl_collect)
  also have "\<dots> = filter (\<lambda>p. fst (encrypt_char_and_meta p shift1 shift2) = c) lower_alphabet"
  proof (rule filter_cong [OF refl])
    fix p assume "p \<in> set lower_alphabet"
    then have "is_lower p" by (simp add: set_lower_alphabet)
    then have "classify_plain p = ''L1'' \<or> classify_plain p = ''L2''"
      by (simp add: classify_plain_def)
    then show "((if classify_plain p = ''L1''
                    then shift_char p ((shift1 mod 26 * (shift2 mod 26)) mod 26)
                    else shift_char p (- ((shift1 mod 26 + shift2 mod 26) mod 26))) = c)
       = (fst (encrypt_char_and_meta p shift1 shift2) = c)"
      by (auto simp add: encrypt_char_and_meta_def encrypt_shifts_def Let_def)
  qed
  finally show ?thesis .
qed

lemma upper_candidates_filter:
  "upper_candidates c (shift1 mod 26) (shift2 mod 26) =
     filter (\<lambda>p. fst (encrypt_char_and_meta p shift1 shift2) = c) upper_alphabet"
proof -
  have "upper_candidates c (shift1 mod 26) (shift2 mod 26) =
      filter (\<lambda>p. (if classify_plain p = ''U1''
                    then shift_char p (- (shift1 mod 26))
                    else shift_char p ((shift2 mod 26 * (shift2 mod 26)) mod 26)) = c)
             upper_alphabet"
    unfolding upper_candidates_def Let_def by (simp add: foldl_collect)
  also have "\<dots> = filter (\<lambda>p. fst (encrypt_char_and_meta p shift1 shift2) = c) upper_alphabet"
  proof (rule filter_cong [OF refl])
    fix p assume "p \<in> set upper_alphabet"
    then have "is_upper p" by (simp add: set_upper_alphabet)
    then have "classify_plain p = ''U1'' \<or> classify_plain p = ''U2''"
      by (simp add: classify_plain_def not_lower_and_upper [of p] is_lower_iff is_upper_iff)
    then show "((if classify_plain p = ''U1''
                    then shift_char p (- (shift1 mod 26))
                    else shift_char p ((shift2 mod 26 * (shift2 mod 26)) mod 26)) = c)
       = (fst (encrypt_char_and_meta p shift1 shift2) = c)"
      by (auto simp add: encrypt_char_and_meta_def encrypt_shifts_def Let_def)
  qed
  finally show ?thesis .
qed

lemma candidates_filter:
  "candidates c shift1 shift2 =
     filter (\<lambda>p. fst (encrypt_char_and_meta p shift1 shift2) = c)
       (if is_lower c then lower_alphabet else if is_upper c then upper_alphabet else [])"
  by (simp add: candidates_def lower_candidates_filter upper_candidates_filter)

lemma set_candidates:
  "is_lower c \<or> is_upper c \<Longrightarrow>
   set (candidates c shift1 shift2) =
     {p. is_lower p = is_lower c \<and> is_upper p = is_upper c
         \<and> fst (encrypt_char_and_meta p shift1 shift2) = c}"
  using not_lower_and_upper [of c]
  by (auto simp add: candidates_filter set_lower_alphabet set_upper_alphabet encrypt_case
      dest: not_lower_and_upper)

lemma sorted_candidates: "sorted_wrt (<) (candidates c shift1 shift2)"
  by (simp add: candidates_filter lower_alphabet_eq upper_alphabet_eq sorted_wrt_filter)

lemma distinct_candidates: "distinct (candidates c shift1 shift2)"
  using sorted_candidates [of c shift1 shift2] strict_sorted_iff by blast

subsection \<open>The loop of the brute-force search\<close>

lemma brute_force_step_eq:
  "brute_force_step (shift1 mod 26) (shift2 mod 26) (d, a) (i, c) =
     (d @ [if candidates c shift1 shift2 = [] then c else hd (candidates c shift1 shift2)],
      a @ (if (is_lower c \<or> is_upper c) \<and> length (candidates c shift1 shift2) \<noteq> 1
           then [(i, c, candidates c shift1 shift2)] else []))"
proof -
  have one: "length cs = 1 \<Longrightarrow> cs \<noteq> [] \<and> cs ! 0 = hd cs" for cs :: pystr
    by (cases cs) simp_all
  have ne: "cs \<noteq> [] \<Longrightarrow> cs ! 0 = hd cs" for cs :: pystr
    by (cases cs) simp_all
  show ?thesis
  proof (cases "is_lower c")
    case True
    then show ?thesis
      using one [of "lower_candidates c (shift1 mod 26) (shift2 mod 26)"]
        ne [of "lower_candidates c (shift1 mod 26) (shift2 mod 26)"]
      by (simp add: brute_force_step_def candidates_def Let_def)
  next
    case False
    then show ?thesis
      using one [of "upper_candidates c (shift1 mod 26) (shift2 mod 26)"]
        ne [of "upper_candidates c (shift1 mod 26) (shift2 mod 26)"]
      by (simp add: brute_force_step_def candidates_def Let_def)
  qed
qed

lemma brute_force_loop:
  "foldl (brute_force_step (shift1 mod 26) (shift2 mod 26)) (d, a) (enumerate n xs) =
     (d @ map (\<lambda>c. if candidates c shift1 shift2 = [] then c
                    else hd (candidates c shift1 shift2)) xs,
      a @ concat (map (\<lambda>(i, c).
                    if (is_lower c \<or> is_upper c) \<and> length (candidates c shift1 shift2) \<noteq> 1
                    then [(i, c, candidates c shift1 shift2)] else [])
                  (enumerate n xs)))"
proof (induction xs arbitrary: d a n)
  case Nil
  then show ?case by simp
next
  case (Cons x xs)
  show ?case
    unfolding enumerate_simps foldl_Cons brute_force_step_eq Cons.IH by simp
qed

lemma brute_force_decrypt_eq:
  "brute_force_decrypt enc shift1 shift2 =
     (map (\<lambda>c. if candidates c shift1 shift2 = [] then c
                else hd (candidates c shift1 shift2)) enc,
      concat (map (\<lambda>(i, c).
                if (is_lower c \<or> is_upper c) \<and> length (candidates c shift1 shift2) \<noteq> 1
                then [(i, c, candidates c shift1 shift2)] else [])
              (enumerate 0 enc)))"
  by (simp add: brute_force_decrypt_def brute_force_shifts_def brute_force_loop)

lemma brute_force_length:
  "brute_force_decrypt enc shift1 shift2 = (dec, ambs) \<Longrightarrow> length dec = length enc"
  by (auto simp add: brute_force_decrypt_eq)

lemma brute_force_nth:
  "brute_force_decrypt enc shift1 shift2 = (dec, ambs) \<Longrightarrow> i < length enc \<Longrightarrow>
   dec ! i = (if candidates (enc ! i) shift1 shift2 = [] then enc ! i
              else hd (candidates (enc ! i) shift1 shift2))"
  by (auto simp add: brute_force_decrypt_eq)

lemma brute_force_ambiguities:
  "brute_force_decrypt enc shift1 shift2 = (dec, ambs) \<Longrightarrow>
   (j, c, cs) \<in> set ambs \<longleftrightarrow>
     j < length enc \<and> c = enc ! j \<and> (is_lower c \<or> is_upper c)
       \<and> cs = candidates c shift1 shift2 \<and> length cs \<noteq> 1"
  by (auto simp add: brute_force_decrypt_eq in_set_enumerate_eq split: if_splits)

lemma forward_rule_inj:
  "forward_rule p K shift1 shift2 = forward_rule q K shift1 shift2 \<Longrightarrow> p = q"
  by (metis inverse_forward_rule)

lemma candidates_same_class:
  assumes "p \<in> set (candidates c shift1 shift2)" and "q \<in> set (candidates c shift1 shift2)"
    and "classify_plain p = classify_plain q"
  shows "p = q"
proof -
  from assms(1,2) have "fst (encrypt_char_and_meta p shift1 shift2) = c"
    "fst (encrypt_char_and_meta q shift1 shift2) = c"
    by (simp_all add: candidates_filter)
  with assms(3) show ?thesis
    by (simp add: encrypt_char_and_meta_forward_rule) (metis forward_rule_inj)
qed

lemma candidates_case:
  assumes "p \<in> set (candidates c shift1 shift2)"
  shows "is_lower p = is_lower c" and "is_upper p = is_upper c" and "is_lower c \<or> is_upper c"
proof -
  from assms have l: "is_lower c \<or> is_upper c"
    by (auto simp add: candidates_def split: if_splits)
  from assms set_candidates [OF l, of shift1 shift2]
  show "is_lower p = is_lower c" and "is_upper p = is_upper c" by simp_all
  from l show "is_lower c \<or> is_upper c" .
qed

lemma length_filter_le_one:
  assumes "distinct xs" and "\<And>x y. x \<in> set xs \<Longrightarrow> y \<in> set xs \<Longrightarrow> P x \<Longrightarrow> P y \<Longrightarrow> x = y"
  shows "length (filter P xs) \<le> 1"
proof -
  have "length (filter P xs) = card ({x. P x} \<inter> set xs)"
    using assms(1) by (rule distinct_length_filter)
  also have "\<dots> \<le> Suc 0"
    using assms(2) by (subst card_le_Suc0_iff_eq) auto
  finally show ?thesis by simp
qed

lemma first_half_candidates:
  "length (filter (\<lambda>p. classify_plain p = ''L1'' \<or> classify_plain p = ''U1'')
     (candidates c shift1 shift2)) \<le> 1"
proof (rule length_filter_le_one [OF distinct_candidates])
  fix x y
  assume x: "x \<in> set (candidates c shift1 shift2)" and y: "y \<in> set (candidates c shift1 shift2)"
    and cx: "classify_plain x = ''L1'' \<or> classify_plain x = ''U1''"
    and cy: "classify_plain y = ''L1'' \<or> classify_plain y = ''U1''"
  from candidates_case(1) [OF x] candidates_case(1) [OF y] have "is_lower x = is_lower y" by simp
  with cx cy have "classify_plain x = ''L1'' \<and> classify_plain y = ''L1''
      \<or> classify_plain x = ''U1'' \<and> classify_plain y = ''U1''"
    by (auto simp add: classify_plain_cases is_lower_iff)
  then have "classify_plain x = classify_plain y" by auto
  with x y show "x = y" by (rule candidates_same_class)
qed

lemma second_half_candidates:
  "length (filter (\<lambda>p. classify_plain p = ''L2'' \<or> classify_plain p = ''U2'')
     (candidates c shift1 shift2)) \<le> 1"
proof (rule length_filter_le_one [OF distinct_candidates])
  fix x y
  assume x: "x \<in> set (candidates c shift1 shift2)" and y: "y \<in> set (candidates c shift1 shift2)"
    and cx: "classify_plain x = ''L2'' \<or> classify_plain x = ''U2''"
    and cy: "classify_plain y = ''L2'' \<or> classify_plain y = ''U2''"
  from candidates_case(1) [OF x] candidates_case(1) [OF y] have "is_lower x = is_lower y" by simp
  with cx cy have "classify_plain x = ''L2'' \<and> classify_plain y = ''L2''
      \<or> classify_plain x = ''U2'' \<and> classify_plain y = ''U2''"
    by (auto simp add: classify_plain_cases is_lower_iff)
  then have "classify_plain x = classify_plain y" by auto
  with x y show "x = y" by (rule candidates_same_class)
qed

lemma candidates_le_two: "length (candidates c shift1 shift2) \<le> 2"
proof -
  let ?cs = "candidates c shift1 shift2"
  let ?F = "\<lambda>p. classify_plain p = ''L1'' \<or> classify_plain p = ''U1''"
  let ?S = "\<lambda>p. classify_plain p = ''L2'' \<or> classify_plain p = ''U2''"
  have "filter (\<lambda>p. \<not> ?F p) ?cs = filter ?S ?cs"
  proof (rule filter_cong [OF refl])
    fix p assume "p \<in> set ?cs"
    then have "is_lower p \<or> is_upper p" using candidates_case [of p c shift1 shift2] by blast
    then show "(\<not> ?F p) = ?S p"
      by (auto simp add: classify_plain_cases is_lower_iff is_upper_iff)
  qed
  then have "length ?cs = length (filter ?F ?cs) + length (filter ?S ?cs)"
    using sum_length_filter_compl [of ?F ?cs] by simp
  with first_half_candidates [of c shift1 shift2] second_half_candidates [of c shift1 shift2]
  show ?thesis by linarith
qed

subsection \<open>Brute-force recovery against the encoder\<close>

text \<open>
  Claim C3. Let \<open>cipher\<close> and \<open>meta\<close> be what the encoder produces for a text \<open>T\<close>. At every
  position that does not occur in the ambiguity list of \<open>brute_force_decrypt\<close> on \<open>cipher\<close>,
  the brute-force output equals what \<open>inverse_by_meta\<close> returns for the cipher character
  and its recorded code, and both are the character of \<open>T\<close> at that position.
\<close>

theorem ambiguity_soundness:
  assumes enc: "encrypt_file (Some T) shift1 shift2 = Inr (cipher, meta)"
    and bf: "brute_force_decrypt cipher shift1 shift2 = (dec, ambs)"
    and i: "i < length T"
    and unamb: "i \<notin> fst ` set ambs"
  shows "dec ! i = inverse_by_meta (cipher ! i) (meta ! i) shift1 shift2 \<and> dec ! i = T ! i"
proof -
  let ?c = "cipher ! i"
  let ?cs = "candidates ?c shift1 shift2"
  from enc have cipher: "cipher = map (\<lambda>ch. fst (encrypt_char_and_meta ch shift1 shift2)) T"
    and meta: "meta = map classify_plain T"
    by (simp_all add: encrypt_file_Some)
  from cipher i have ci: "?c = fst (encrypt_char_and_meta (T ! i) shift1 shift2)" by simp
  from meta i have mi: "meta ! i = classify_plain (T ! i)" by simp
  have inv: "inverse_by_meta ?c (meta ! i) shift1 shift2 = T ! i"
    using inverse_encrypt [of "T ! i" shift1 shift2] by (simp add: ci mi snd_encrypt)
  from cipher i have len: "i < length cipher" by simp
  have dec: "dec ! i = (if ?cs = [] then ?c else hd ?cs)"
    using brute_force_nth [OF bf len] .
  have "dec ! i = T ! i"
  proof (cases "is_lower (T ! i) \<or> is_upper (T ! i)")
    case True
    then have letter: "is_lower ?c \<or> is_upper ?c" by (simp add: ci encrypt_case)
    have mem: "T ! i \<in> set ?cs"
      unfolding set_candidates [OF letter] by (simp add: ci encrypt_case)
    have "length ?cs = 1"
    proof (rule ccontr)
      assume "length ?cs \<noteq> 1"
      with len letter have "(i, ?c, ?cs) \<in> set ambs"
        by (simp add: brute_force_ambiguities [OF bf])
      then have "fst (i, ?c, ?cs) \<in> fst ` set ambs" by (rule imageI)
      with unamb show False by simp
    qed
    then obtain x where x: "?cs = [x]" by (cases ?cs) simp_all
    with mem have "x = T ! i" by simp
    with x dec show ?thesis by simp
  next
    case False
    then have other: "\<not> is_lower ?c" "\<not> is_upper ?c" by (simp_all add: ci encrypt_case)
    then have "?cs = []" by (simp add: candidates_def)
    moreover from False have "classify_plain (T ! i) = ''O''" by (simp add: classify_plain_cases)
    then have "?c = T ! i" by (simp add: ci encrypt_char_and_meta_def encrypt_shifts_def)
    ultimately show ?thesis using dec by simp
  qed
  with inv show ?thesis by simp
qed

theorem ambiguity_soundness_witness:
  "encrypt_file (Some (py ''Hi!'')) 3 5 = Inr (py ''Ex!'', [''U1'', ''L1'', ''O''])
   \<and> brute_force_decrypt (py ''Ex!'') 3 5 = (py ''Hi!'', [])
   \<and> py ''Hi!'' ! 1 = inverse_by_meta (py ''Ex!'' ! 1) ([''U1'', ''L1'', ''O''] ! 1) 3 5
   \<and> py ''Hi!'' ! 1 = ord CHR ''i''"
proof -
  have e: "encrypt_file (Some (py ''Hi!'')) 3 5 = Inr (py ''Ex!'', [''U1'', ''L1'', ''O''])"
    by code_simp
  have b: "brute_force_decrypt (py ''Ex!'') 3 5 = (py ''Hi!'', [])"
    by code_simp
  have l: "1 < length (py ''Hi!'')" by (simp add: py_def)
  have u: "(1::nat) \<notin> fst ` set ([] :: ambiguity list)" by simp
  have v: "py ''Hi!'' ! 1 = ord CHR ''i''" by (simp add: py_def)
  from ambiguity_soundness [OF e b l u] e b v show ?thesis by simp
qed

text \<open>
  Claim C4. At a position \<open>i\<close> holding a letter, the candidate list consists of the
  letters of the same case that encrypt to the cipher character, in ascending order and
  without repetition, so its length is the number of such letters. If there is exactly
  one, it is the output at \<open>i\<close> and no ambiguity record has position \<open>i\<close>. Otherwise the
  record (position, cipher character, candidate list) is in the ambiguity list, and the
  output is the first candidate, or the cipher character itself when there is none.
\<close>

theorem brute_force_decision:
  assumes bf: "brute_force_decrypt enc shift1 shift2 = (dec, ambs)"
    and i: "i < length enc"
    and letter: "is_lower (enc ! i) \<or> is_upper (enc ! i)"
  shows "set (candidates (enc ! i) shift1 shift2) =
           {p. is_lower p = is_lower (enc ! i) \<and> is_upper p = is_upper (enc ! i)
               \<and> fst (encrypt_char_and_meta p shift1 shift2) = enc ! i}
       \<and> length (candidates (enc ! i) shift1 shift2) =
           card {p. is_lower p = is_lower (enc ! i) \<and> is_upper p = is_upper (enc ! i)
                    \<and> fst (encrypt_char_and_meta p shift1 shift2) = enc ! i}
       \<and> sorted_wrt (<) (candidates (enc ! i) shift1 shift2)
       \<and> (if length (candidates (enc ! i) shift1 shift2) = 1
          then candidates (enc ! i) shift1 shift2 = [dec ! i] \<and> i \<notin> fst ` set ambs
          else (i, enc ! i, candidates (enc ! i) shift1 shift2) \<in> set ambs
             \<and> dec ! i = (if candidates (enc ! i) shift1 shift2 = [] then enc ! i
                          else hd (candidates (enc ! i) shift1 shift2)))"
proof -
  let ?cs = "candidates (enc ! i) shift1 shift2"
  have s: "set ?cs = {p. is_lower p = is_lower (enc ! i) \<and> is_upper p = is_upper (enc ! i)
               \<and> fst (encrypt_char_and_meta p shift1 shift2) = enc ! i}"
    by (rule set_candidates [OF letter])
  have "length ?cs = card (set ?cs)"
    using distinct_candidates [of "enc ! i" shift1 shift2] by (simp add: distinct_card)
  then have c: "length ?cs = card {p. is_lower p = is_lower (enc ! i) \<and> is_upper p = is_upper (enc ! i)
               \<and> fst (encrypt_char_and_meta p shift1 shift2) = enc ! i}"
    by (simp only: s)
  have dec: "dec ! i = (if ?cs = [] then enc ! i else hd ?cs)"
    by (rule brute_force_nth [OF bf i])
  have d: "if length ?cs = 1 then ?cs = [dec ! i] \<and> i \<notin> fst ` set ambs
           else (i, enc ! i, ?cs) \<in> set ambs \<and> dec ! i = (if ?cs = [] then enc ! i else hd ?cs)"
  proof (cases "length ?cs = 1")
    case True
    then obtain x where x: "?cs = [x]" by (cases ?cs) simp_all
    have "i \<notin> fst ` set ambs"
    proof
      assume "i \<in> fst ` set ambs"
      then obtain c cs where "(i, c, cs) \<in> set ambs" by force
      with True show False by (auto simp add: brute_force_ambiguities [OF bf])
    qed
    with True x dec show ?thesis by simp
  next
    case False
    with i letter have "(i, enc ! i, ?cs) \<in> set ambs"
      by (simp add: brute_force_ambiguities [OF bf])
    with False dec show ?thesis by simp
  qed
  from s c d sorted_candidates [of "enc ! i" shift1 shift2] show ?thesis by blast
qed

theorem brute_force_decision_witness:
  "brute_force_decrypt (py ''Ex!'') 3 5 = (py ''Hi!'', [])
   \<and> 0 < length (py ''Ex!'') \<and> is_upper (py ''Ex!'' ! 0)
   \<and> candidates (py ''Ex!'' ! 0) 3 5 = [ord CHR ''H'']
   \<and> card {p. is_lower p = is_lower (py ''Ex!'' ! 0) \<and> is_upper p = is_upper (py ''Ex!'' ! 0)
              \<and> fst (encrypt_char_and_meta p 3 5) = py ''Ex!'' ! 0} = 1"
proof -
  have b: "brute_force_decrypt (py ''Ex!'') 3 5 = (py ''Hi!'', [])" by code_simp
  have l: "0 < length (py ''Ex!'')" by (simp add: py_def)
  have u: "is_upper (py ''Ex!'' ! 0)" by code_simp
  have c: "candidates (py ''Ex!'' ! 0) 3 5 = [ord CHR ''H'']" by code_simp
  from brute_force_decision [OF b l disjI2 [OF u]] b l u c show ?thesis by simp
qed

text \<open>
  Claim C5, in the form that holds of the code. A position whose cipher letter no letter of its case encrypts to
  is reported in the one ambiguity list, the same list that holds the ties, as the record
  with the empty candidate list, and the output there is the cipher character itself. A
  tie is reported there with its non-empty candidate list. The two are told apart by the
  candidate list only.
\<close>

theorem zero_candidates_recorded:
  assumes bf: "brute_force_decrypt enc shift1 shift2 = (dec, ambs)"
    and i: "i < length enc"
    and letter: "is_lower (enc ! i) \<or> is_upper (enc ! i)"
  shows "(candidates (enc ! i) shift1 shift2 = [] \<longleftrightarrow>
            (\<forall>p. is_lower p = is_lower (enc ! i) \<and> is_upper p = is_upper (enc ! i)
                 \<longrightarrow> fst (encrypt_char_and_meta p shift1 shift2) \<noteq> enc ! i))
       \<and> (candidates (enc ! i) shift1 shift2 = [] \<longleftrightarrow> (i, enc ! i, []) \<in> set ambs)
       \<and> (candidates (enc ! i) shift1 shift2 = [] \<longrightarrow> dec ! i = enc ! i)
       \<and> (1 < length (candidates (enc ! i) shift1 shift2) \<longleftrightarrow>
            (\<exists>cs. cs \<noteq> [] \<and> (i, enc ! i, cs) \<in> set ambs))
       \<and> (1 < length (candidates (enc ! i) shift1 shift2) \<longrightarrow>
            (i, enc ! i, candidates (enc ! i) shift1 shift2) \<in> set ambs)"
proof -
  let ?cs = "candidates (enc ! i) shift1 shift2"
  have "?cs = [] \<longleftrightarrow> set ?cs = {}" by simp
  also have "\<dots> \<longleftrightarrow> (\<forall>p. is_lower p = is_lower (enc ! i) \<and> is_upper p = is_upper (enc ! i)
                 \<longrightarrow> fst (encrypt_char_and_meta p shift1 shift2) \<noteq> enc ! i)"
    unfolding set_candidates [OF letter] by blast
  finally have a: "?cs = [] \<longleftrightarrow> (\<forall>p. is_lower p = is_lower (enc ! i) \<and> is_upper p = is_upper (enc ! i)
                 \<longrightarrow> fst (encrypt_char_and_meta p shift1 shift2) \<noteq> enc ! i)" .
  have b: "?cs = [] \<longleftrightarrow> (i, enc ! i, []) \<in> set ambs"
    using i letter by (auto simp add: brute_force_ambiguities [OF bf])
  have c: "?cs = [] \<longrightarrow> dec ! i = enc ! i"
    by (simp add: brute_force_nth [OF bf i])
  have d: "1 < length ?cs \<longleftrightarrow> (\<exists>cs. cs \<noteq> [] \<and> (i, enc ! i, cs) \<in> set ambs)"
  proof
    assume "1 < length ?cs"
    with i letter have "?cs \<noteq> [] \<and> (i, enc ! i, ?cs) \<in> set ambs"
      by (auto simp add: brute_force_ambiguities [OF bf])
    then show "\<exists>cs. cs \<noteq> [] \<and> (i, enc ! i, cs) \<in> set ambs" by blast
  next
    assume "\<exists>cs. cs \<noteq> [] \<and> (i, enc ! i, cs) \<in> set ambs"
    then obtain cs where "cs \<noteq> []" "(i, enc ! i, cs) \<in> set ambs" by blast
    then have "?cs \<noteq> []" "length ?cs \<noteq> 1"
      by (auto simp add: brute_force_ambiguities [OF bf])
    then show "1 < length ?cs" by (cases ?cs) auto
  qed
  have e: "1 < length ?cs \<longrightarrow> (i, enc ! i, ?cs) \<in> set ambs"
    using i letter by (auto simp add: brute_force_ambiguities [OF bf])
  from a b c d e show ?thesis by blast
qed

theorem zero_candidates_recorded_witness:
  "brute_force_decrypt (py ''an'') 0 13 = (py ''an'', [(0, 97, [97, 110]), (1, 110, [])])
   \<and> 1 < length (py ''an'') \<and> is_lower (py ''an'' ! 1)
   \<and> candidates (py ''an'' ! 1) 0 13 = []
   \<and> \<not> (\<exists>p. is_lower p = is_lower (py ''an'' ! 1) \<and> is_upper p = is_upper (py ''an'' ! 1)
           \<and> fst (encrypt_char_and_meta p 0 13) = py ''an'' ! 1)
   \<and> candidates (py ''an'' ! 0) 0 13 = [97, 110]"
proof -
  have b: "brute_force_decrypt (py ''an'') 0 13 = (py ''an'', [(0, 97, [97, 110]), (1, 110, [])])"
    by code_simp
  have l: "1 < length (py ''an'')" by (simp add: py_def)
  have u: "is_lower (py ''an'' ! 1)" by code_simp
  have c: "candidates (py ''an'' ! 1) 0 13 = []" by code_simp
  have c0: "candidates (py ''an'' ! 0) 0 13 = [97, 110]" by code_simp
  from zero_candidates_recorded [OF b l disjI1 [OF u]] c
  have "\<forall>p. is_lower p = is_lower (py ''an'' ! 1) \<and> is_upper p = is_upper (py ''an'' ! 1)
           \<longrightarrow> fst (encrypt_char_and_meta p 0 13) \<noteq> py ''an'' ! 1"
    by blast
  then have n: "\<not> (\<exists>p. is_lower p = is_lower (py ''an'' ! 1) \<and> is_upper p = is_upper (py ''an'' ! 1)
           \<and> fst (encrypt_char_and_meta p 0 13) = py ''an'' ! 1)"
    by blast
  from b l u c n c0 show ?thesis by (intro conjI)
qed

text \<open>
  There is no separate report: for the cipher text \<open>an\<close> under the shifts \<open>0, 13\<close> the
  single ambiguity list returned holds the tie at position 0 and, next to it, the
  position 1 that has no candidate.
\<close>

theorem zero_candidates_share_the_list:
  "brute_force_decrypt (py ''an'') 0 13 =
     (py ''an'', [(0, ord CHR ''a'', py ''an''), (1, ord CHR ''n'', [])])"
  by code_simp

text \<open>
  Claim C10. The candidate list of a cipher character has at most two letters: at most
  one of a first-half class and at most one of a second-half class, in ascending order.
  Every ambiguity record holds the candidate list of its cipher character, of length 0
  or 2.
\<close>

theorem candidate_list_bounds:
  "length (candidates c shift1 shift2) \<le> 2
   \<and> length (filter (\<lambda>p. classify_plain p = ''L1'' \<or> classify_plain p = ''U1'')
        (candidates c shift1 shift2)) \<le> 1
   \<and> length (filter (\<lambda>p. classify_plain p = ''L2'' \<or> classify_plain p = ''U2'')
        (candidates c shift1 shift2)) \<le> 1
   \<and> sorted_wrt (<) (candidates c shift1 shift2)
   \<and> (\<forall>r \<in> set (snd (brute_force_decrypt enc shift1 shift2)).
         snd (snd r) = candidates (fst (snd r)) shift1 shift2
         \<and> (length (snd (snd r)) = 0 \<or> length (snd (snd r)) = 2))"
proof -
  have "snd (snd r) = candidates (fst (snd r)) shift1 shift2
      \<and> (length (snd (snd r)) = 0 \<or> length (snd (snd r)) = 2)"
    if r: "r \<in> set (snd (brute_force_decrypt enc shift1 shift2))" for r
  proof -
    obtain j c cs where rr: "r = (j, c, cs)" by (cases r) auto
    obtain dec ambs where bf: "brute_force_decrypt enc shift1 shift2 = (dec, ambs)"
      by (cases "brute_force_decrypt enc shift1 shift2") auto
    from r have "(j, c, cs) \<in> set ambs" by (simp add: rr bf)
    then have cs: "cs = candidates c shift1 shift2" and n: "length cs \<noteq> 1"
      by (auto simp add: brute_force_ambiguities [OF bf])
    from cs candidates_le_two [of c shift1 shift2] have "length cs \<le> 2" by simp
    with n have "length cs = 0 \<or> length cs = 2" by linarith
    with cs show ?thesis by (simp add: rr)
  qed
  with candidates_le_two [of c shift1 shift2] first_half_candidates [of c shift1 shift2]
    second_half_candidates [of c shift1 shift2] sorted_candidates [of c shift1 shift2]
  show ?thesis by blast
qed

theorem candidate_list_bounds_witness:
  "snd (brute_force_decrypt (py ''an'') 0 13) = [(0, 97, [97, 110]), (1, 110, [])]
   \<and> candidates 97 0 13 = [97, 110]
   \<and> candidates 110 0 13 = []
   \<and> length (candidates 97 0 13) \<le> 2"
proof -
  have b: "snd (brute_force_decrypt (py ''an'') 0 13) = [(0, 97, [97, 110]), (1, 110, [])]"
    by code_simp
  note t = candidate_list_bounds [of 97 0 13 "py ''an''"]
  from t have l: "length (candidates 97 0 13) \<le> 2" by (rule conjunct1)
  from t have "\<forall>r \<in> set (snd (brute_force_decrypt (py ''an'') 0 13)).
         snd (snd r) = candidates (fst (snd r)) 0 13
         \<and> (length (snd (snd r)) = 0 \<or> length (snd (snd r)) = 2)"
    by (elim conjE)
  then have a: "\<forall>r \<in> set [(0, 97, [97, 110]), (1, 110, [])] :: ambiguity set.
         snd (snd r) = candidates (fst (snd r)) 0 13
         \<and> (length (snd (snd r)) = 0 \<or> length (snd (snd r)) = 2)"
    unfolding b .
  from a have c0: "candidates 97 0 13 = [97, 110]" by simp
  from a have c1: "candidates 110 0 13 = []" by simp
  from b c0 c1 l show ?thesis by (intro conjI)
qed

subsection \<open>Verification\<close>

text \<open>
  \<open>verify_files\<close> returns \<open>True\<close> exactly when the two texts are equal. On a mismatch it
  prints the lines of the library's unified diff of the two lists of lines.
\<close>

lemma verify_files_outcome:
  "\<exists>out. verify_files unified_diff (Some raw) (Some dec) = Inr (raw = dec, out)"
  by (simp add: verify_files_def Let_def)

lemma splitlines_abc: "splitlines (py ''abc'') = [py ''abc'']" "splitlines (py ''abd'') = [py ''abd'']"
  by (simp_all add: splitlines_def py_def ord_def is_line_boundary_def)

lemma verify_files_match:
  "verify_files unified_diff (Some (py ''abc'')) (Some (py ''abc'')) =
     Inr (True, [py ''Decryption successful! Decrypted text matches the original.''])"
  by (simp add: verify_files_def)

lemma verify_files_mismatch:
  "verify_files unified_diff (Some (py ''abc'')) (Some (py ''abd'')) =
     Inr (False,
          [py ''Decryption failed: decrypted text does not match original.'',
           [0x0A] @ py ''Showing a short unified diff (original -> decrypted):'' @ [0x0A]]
          @ print_diff 0 (unified_diff [py ''abc''] [py ''abd'']))"
proof -
  have "py ''abc'' \<noteq> py ''abd''" by (simp add: py_def ord_def)
  then show ?thesis by (simp add: verify_files_def Let_def splitlines_abc)
qed

end
